theory Spec2Isabelle
  imports Main "HOL-Library.Word"
begin

unbundle bit_operations_syntax

section \<open>Constants, bytes, the mapped input and errors of the two drivers\<close>

text \<open>
  Both drivers (\<^verbatim>\<open>HuffmanCompress.cpp\<close> and \<^verbatim>\<open>AdaptiveHuffmanCompress.cpp\<close>) read the
  input through a memory mapping \<^verbatim>\<open>file.open(inputFile, numberOfBytes, 0)\<close> of a hard-coded
  length, whatever the size of the file, and index it as \<^verbatim>\<open>unsigned char * data\<close>. The
  model takes the mapped view as a function from offsets to what the read \<^verbatim>\<open>data[i]\<close>
  does: \<open>Some c\<close> when it yields the byte \<open>c\<close>, \<open>None\<close> when it kills the process.

  The model of a driver starts after the check of the command line and the opening of
  the two files; a file that cannot be opened is outside it. It ends with
  \<^verbatim>\<open>bout.finish()\<close>: the statements after it reopen the output file while the
  \<^verbatim>\<open>std::ofstream\<close> is still open and write a vector defined outside the two drivers, and
  what the output file then holds is not expressed. The classes the drivers use
  (\<^verbatim>\<open>FrequencyTable\<close>, \<^verbatim>\<open>CodeTree\<close>, \<^verbatim>\<open>CanonicalCode\<close>, \<^verbatim>\<open>BitOutputStream\<close>,
  \<^verbatim>\<open>HuffmanEncoder\<close>) are not among the sources and are modelled from the specification;
  the loops, the conditions and the order of the calls are those of the two drivers.
\<close>

type_synonym byte = "8 word"

type_synonym mapped_view = "nat \<Rightarrow> byte option"

definition numberOfBytes :: nat where
  "numberOfBytes = 143666240"

definition EOF :: int where
  "EOF = - 1"

text \<open>
  The view of a file under the mapping. The operating system maps whole pages: an offset
  of the file shows the file's byte, an offset past the end of the file and within the
  file's last page shows a zero byte, and a read at any offset beyond the last page of
  the file kills the process with a bus error. The size of a page is a parameter (0
  stands for a mapping that ends with the file); \<open>pages_end\<close> is the first offset beyond
  the last page of a file of \<open>len\<close> bytes (an empty file has no page). The loops read the
  offsets below \<open>numberOfBytes\<close> only.
\<close>

definition pages_end :: "nat \<Rightarrow> nat \<Rightarrow> nat" where
  "pages_end pageSize len =
     (if pageSize = 0 then len else ((len + pageSize - 1) div pageSize) * pageSize)"

definition contents :: "byte list \<Rightarrow> nat \<Rightarrow> byte" where
  "contents file i = (if i < length file then file ! i else 0)"

definition view_of :: "nat \<Rightarrow> byte list \<Rightarrow> mapped_view" where
  "view_of pageSize file =
     (\<lambda>i. if i < pages_end pageSize (length file) then Some (contents file i) else None)"

text \<open>What ends a loop or a \<^verbatim>\<open>try\<close> block early: an exception the code throws, or
  \<open>BusError i\<close>, which is no exception: the read at offset \<open>i\<close> of the mapped view killed
  the process.\<close>

datatype error =
    LogicError string
  | DomainError string
  | RangeError string
  | BusError nat

section \<open>FrequencyTable\<close>

text \<open>
  Modelled from the spec: the class FrequencyTable (FrequencyTable.cpp is not among the
  sources). A table is the ordered sequence of counts, one per symbol. The drivers build
  it from a \<^verbatim>\<open>std::vector<uint32_t>\<close>; a run makes at most \<open>numberOfBytes + 1 < 2 ^ 32\<close>
  increments, so the counts are natural numbers here.
\<close>

type_synonym FrequencyTable = "nat list"

text \<open>Modelled from the spec: the getter of the symbol limit (of a frequency table and of
  a canonical code), the length of the sequence.\<close>

definition getSymbolLimit :: "'a list \<Rightarrow> nat" where
  "getSymbolLimit freqs = length freqs"

text \<open>Modelled from the spec: FrequencyTable::increment, which increases the symbol's count
  by 1 and fails with a range error if the symbol is out of bounds.\<close>

definition increment :: "FrequencyTable \<Rightarrow> nat \<Rightarrow> error + FrequencyTable" where
  "increment freqs symbol =
     (if symbol < length freqs then Inr (freqs[symbol := freqs ! symbol + 1])
      else Inl (RangeError ''Symbol out of range''))"

section \<open>Static driver: the SCAN loop\<close>

text \<open>
  \<^verbatim>\<open>
  FrequencyTable freqs(std::vector<uint32_t>(257, 0));
  for(int i = 0; i < numberOfBytes; i++) {
      int b = (int) data[i];
      if (b == EOF) break;
      if (b < 0 || b > 255) throw std::logic_error("Assertion error");
      freqs.increment(static_cast<uint32_t>(b));
  }
  freqs.increment(256);  // EOF symbol gets a frequency of 1
  \<close>
  The loop returns the table, the value of \<open>i\<close> at which it was left and how it was left.
\<close>

datatype loop_exit = Exhausted | Break

function scan_loop ::
  "nat \<Rightarrow> mapped_view \<Rightarrow> nat \<Rightarrow> FrequencyTable \<Rightarrow> error + (FrequencyTable \<times> nat \<times> loop_exit)"
where
  "scan_loop n data i freqs =
     (if i < n then
        (case data i of
           None \<Rightarrow> Inl (BusError i)
         | Some c \<Rightarrow>
            (let b = uint c in
             if b = EOF then Inr (freqs, i, Break)
             else if b < 0 \<or> b > 255 then Inl (LogicError ''Assertion error'')
             else (case increment freqs (nat b) of
                     Inl e \<Rightarrow> Inl e
                   | Inr freqs' \<Rightarrow> scan_loop n data (i + 1) freqs')))
      else Inr (freqs, i, Exhausted))"
  by pat_completeness auto
termination
  by (relation "measure (\<lambda>(n, data, i, freqs). n - i)") auto

declare scan_loop.simps [simp del]

definition scan :: "mapped_view \<Rightarrow> error + FrequencyTable" where
  "scan data =
     (case scan_loop numberOfBytes data 0 (replicate 257 0) of
        Inl e \<Rightarrow> Inl e
      | Inr (freqs, i, ex) \<Rightarrow> increment freqs 256)"

text \<open>Occurrences of the byte value \<open>b\<close> among the bytes \<open>d i, \<dots>, d (n - 1)\<close>, and in a
  file.\<close>

definition occurrences :: "(nat \<Rightarrow> byte) \<Rightarrow> nat \<Rightarrow> nat \<Rightarrow> nat \<Rightarrow> nat" where
  "occurrences d i n b = length (filter (\<lambda>j. unat (d j) = b) [i..<n])"

definition occurrences_in_file :: "byte list \<Rightarrow> nat \<Rightarrow> nat" where
  "occurrences_in_file file b = length (filter (\<lambda>c. unat c = b) file)"

section \<open>BitOutputStream\<close>

text \<open>
  Modelled from the spec: the class BitOutputStream (BitIoStream.cpp is not among the
  sources). The stream hands whole bytes to the underlying byte sink and keeps the bits
  (at most 7) that have not yet formed a full byte.
\<close>

record BitOutputStream =
  sink :: "byte list"
  pending :: "bool list"

text \<open>A byte from its bits and back, most significant bit first.\<close>

definition byte_of_bits :: "bool list \<Rightarrow> byte" where
  "byte_of_bits bs = foldl (\<lambda>w b. push_bit 1 w OR (if b then 1 else 0)) 0 bs"

definition bits_of_byte :: "byte \<Rightarrow> bool list" where
  "bits_of_byte c = map (bit c) [7, 6, 5, 4, 3, 2, 1, 0]"

text \<open>Modelled from the spec: the stream as \<^verbatim>\<open>BitOutputStream bout(out)\<close> constructs it on the
  output file just created.\<close>

definition new_stream :: BitOutputStream where
  "new_stream = \<lparr>sink = [], pending = []\<rparr>"

text \<open>Modelled from the spec: BitOutputStream::write (\<open>write\<close> is a keyword of Isabelle),
  which appends one bit, most significant bit first within each byte.\<close>

definition write_bit :: "BitOutputStream \<Rightarrow> bool \<Rightarrow> BitOutputStream" where
  "write_bit bout b =
     (let p = pending bout @ [b] in
      if length p = 8 then \<lparr>sink = sink bout @ [byte_of_bits p], pending = []\<rparr>
      else \<lparr>sink = sink bout, pending = p\<rparr>)"

text \<open>Modelled from the spec: BitOutputStream::finish, which pads the current partial byte
  with 0 bits and flushes it.\<close>

definition finish :: "BitOutputStream \<Rightarrow> BitOutputStream" where
  "finish bout =
     (if pending bout = [] then bout
      else \<lparr>sink = sink bout @ [byte_of_bits (pending bout @ replicate (8 - length (pending bout)) False)],
            pending = []\<rparr>)"

text \<open>All bits the stream has received, in order.\<close>

definition bits_written :: "BitOutputStream \<Rightarrow> bool list" where
  "bits_written bout = concat (map bits_of_byte (sink bout)) @ pending bout"

section \<open>CodeTree and its construction\<close>

text \<open>
  Modelled from the spec: the class CodeTree and FrequencyTable::buildCodeTree
  (CodeTree.cpp and FrequencyTable.cpp are not among the sources). A code tree is a
  binary tree whose leaves are symbols; the path from the root to a leaf is the symbol's
  codeword, left = 0 and right = 1. The construction keeps a min-priority forest with one
  leaf per symbol of nonzero frequency, each node tagged with its frequency and the
  smallest symbol it contains; it repeatedly takes out the two lowest nodes and merges
  them into an internal node whose frequency is their sum, until one node remains. Of two
  nodes of equal frequency the one with the smaller smallest symbol is the lower. With
  no symbol of nonzero frequency the construction fails. The first node taken out
  becomes the left child.
\<close>

datatype CodeTree = Leaf nat | InternalNode CodeTree CodeTree

text \<open>A node of the priority forest: its frequency, the smallest symbol it contains and
  its tree; \<open>lower\<close> is the priority order and \<open>enqueue\<close> keeps the forest sorted by it.\<close>

type_synonym NodeWithFrequency = "nat \<times> nat \<times> CodeTree"

definition lower :: "NodeWithFrequency \<Rightarrow> NodeWithFrequency \<Rightarrow> bool" where
  "lower x y = (fst x < fst y \<or> (fst x = fst y \<and> fst (snd x) < fst (snd y)))"

fun enqueue :: "NodeWithFrequency \<Rightarrow> NodeWithFrequency list \<Rightarrow> NodeWithFrequency list" where
  "enqueue x [] = [x]"
| "enqueue x (y # q) = (if lower x y then x # y # q else y # enqueue x q)"

definition merge_nodes :: "NodeWithFrequency \<Rightarrow> NodeWithFrequency \<Rightarrow> NodeWithFrequency" where
  "merge_nodes x y =
     (fst x + fst y, min (fst (snd x)) (fst (snd y)), InternalNode (snd (snd x)) (snd (snd y)))"

lemma length_enqueue: "length (enqueue x q) = Suc (length q)"
  by (induction q) auto

function merge_all :: "NodeWithFrequency list \<Rightarrow> CodeTree option" where
  "merge_all [] = None"
| "merge_all [x] = Some (snd (snd x))"
| "merge_all (x # y # q) = merge_all (enqueue (merge_nodes x y) q)"
  by pat_completeness auto
termination
  by (relation "measure length") (auto simp: length_enqueue)

definition leaf_nodes :: "FrequencyTable \<Rightarrow> NodeWithFrequency list" where
  "leaf_nodes freqs =
     map (\<lambda>s. (freqs ! s, s, Leaf s)) (filter (\<lambda>s. freqs ! s > 0) [0..<length freqs])"

text \<open>Modelled from the spec: FrequencyTable::buildCodeTree.\<close>

definition buildCodeTree :: "FrequencyTable \<Rightarrow> error + CodeTree" where
  "buildCodeTree freqs =
     (case merge_all (foldr enqueue (leaf_nodes freqs) []) of
        None \<Rightarrow> Inl (DomainError ''No symbol has a nonzero frequency'')
      | Some t \<Rightarrow> Inr t)"

section \<open>HuffmanEncoder\<close>

text \<open>
  Modelled from the spec: the class HuffmanEncoder (HuffmanCoder.cpp is not among the
  sources). \<open>getCode\<close> is the path from the root to the symbol's leaf; the encoder emits
  it through the bit output stream and fails, before writing a bit, when the symbol has
  no leaf in the current tree (a logic error in the spec's words).
\<close>

text \<open>Modelled from the spec: the codeword of a symbol in a code tree, if it has a leaf.\<close>

fun getCode :: "CodeTree \<Rightarrow> nat \<Rightarrow> bool list option" where
  "getCode (Leaf s) symbol = (if s = symbol then Some [] else None)"
| "getCode (InternalNode l r) symbol =
     (case getCode l symbol of
        Some p \<Rightarrow> Some (False # p)
      | None \<Rightarrow> (case getCode r symbol of Some p \<Rightarrow> Some (True # p) | None \<Rightarrow> None))"

text \<open>Modelled from the spec: HuffmanEncoder::write on the encoder's current tree and bit
  output stream.\<close>

definition enc_write :: "CodeTree \<Rightarrow> BitOutputStream \<Rightarrow> nat \<Rightarrow> error + BitOutputStream" where
  "enc_write codeTree bout symbol =
     (case getCode codeTree symbol of
        None \<Rightarrow> Inl (LogicError ''No code for given symbol'')
      | Some p \<Rightarrow> Inr (foldl write_bit bout p))"

text \<open>The symbols that have a leaf in a tree.\<close>

fun leaves :: "CodeTree \<Rightarrow> nat set" where
  "leaves (Leaf s) = {s}"
| "leaves (InternalNode l r) = leaves l \<union> leaves r"

section \<open>CanonicalCode\<close>

text \<open>
  Modelled from the spec: the class CanonicalCode (CanonicalCode.cpp is not among the
  sources). A canonical code is the ordered sequence of code lengths, one per symbol,
  0 for a symbol without a code; the static driver reads a length into a \<^verbatim>\<open>uint32_t\<close>.
  \<open>fromCodeTree\<close> records each leaf's depth.
\<close>

type_synonym CanonicalCode = "32 word list"

text \<open>Modelled from the spec: the construction of a CanonicalCode from a code tree and a
  symbol limit.\<close>

definition fromCodeTree :: "CodeTree \<Rightarrow> nat \<Rightarrow> CanonicalCode" where
  "fromCodeTree t symbolLimit =
     map (\<lambda>s. case getCode t s of None \<Rightarrow> 0 | Some p \<Rightarrow> of_nat (length p)) [0..<symbolLimit]"

text \<open>Modelled from the spec: CanonicalCode::getCodeLength, with a domain error for a symbol
  outside the code (the header loop never asks for one).\<close>

definition getCodeLength :: "CanonicalCode \<Rightarrow> nat \<Rightarrow> error + 32 word" where
  "getCodeLength cc symbol =
     (if symbol < length cc then Inr (cc ! symbol) else Inl (DomainError ''Symbol out of range''))"

section \<open>Static driver: EMIT_HEADER and ENCODE\<close>

text \<open>
  Inside the \<^verbatim>\<open>try\<close> block a failure carries the bit output stream as it was when the
  block was left.
\<close>

type_synonym 'a attempt = "(error \<times> BitOutputStream) + 'a"

text \<open>
  \<^verbatim>\<open>
  for (uint32_t i = 0; i < canonCode.getSymbolLimit(); i++) {
      uint32_t val = canonCode.getCodeLength(i);
      if (val >= 256) throw std::domain_error("The code for a symbol is too long");
      for (int j = 7; j >= 0; j--) bout.write((val >> j) & 1);
  }
  \<close>
  \<open>write_val_bits val 8\<close> is the inner loop: it writes bit 7 first and bit 0 last.
\<close>

primrec write_val_bits :: "32 word \<Rightarrow> nat \<Rightarrow> BitOutputStream \<Rightarrow> BitOutputStream" where
  "write_val_bits val 0 bout = bout"
| "write_val_bits val (Suc j) bout =
     write_val_bits val j (write_bit bout ((drop_bit j val AND 1) = 1))"

function write_code_lengths :: "CanonicalCode \<Rightarrow> nat \<Rightarrow> BitOutputStream \<Rightarrow> BitOutputStream attempt" where
  "write_code_lengths canonCode i bout =
     (if i < getSymbolLimit canonCode then
        (case getCodeLength canonCode i of
           Inl e \<Rightarrow> Inl (e, bout)
         | Inr val \<Rightarrow>
             if val \<ge> 256 then Inl (DomainError ''The code for a symbol is too long'', bout)
             else write_code_lengths canonCode (i + 1) (write_val_bits val 8 bout))
      else Inr bout)"
  by pat_completeness auto
termination
  by (relation "measure (\<lambda>(canonCode, i, bout). getSymbolLimit canonCode - i)") auto

declare write_code_lengths.simps [simp del]




section \<open>Adaptive driver\<close>

text \<open>
  \<^verbatim>\<open>
  static bool isPowerOf2(uint32_t x) { return x > 0 && (x & (x - 1)) == 0; }
  \<close>
\<close>

definition isPowerOf2 :: "32 word \<Rightarrow> bool" where
  "isPowerOf2 x = (x > 0 \<and> (x AND (x - 1)) = 0)"

definition initFreqs :: FrequencyTable where
  "initFreqs = replicate 257 1"

text \<open>
  The state of the adaptive driver inside its \<^verbatim>\<open>try\<close> block. \<open>calls\<close> is the sequence of
  calls the driver has made on its collaborators, in the order it made them: a
  bookkeeping field, with no counterpart in the code, that lets statements speak about
  when the tree is rebuilt and the table reset. \<open>BuildCodeTree\<close> records the table the
  tree was built from.
\<close>

datatype call =
    EncWrite nat
  | Increment nat
  | BuildCodeTree FrequencyTable
  | ResetTable
  | Finish

record adaptive_state =
  freqs :: FrequencyTable
  tree :: CodeTree
  count :: "32 word"
  bout :: BitOutputStream
  calls :: "call list"

text \<open>
  The body of the loop after the two checks on \<open>symbol\<close>:
  \<^verbatim>\<open>
  enc.write(static_cast<uint32_t>(symbol));
  count++;
  freqs.increment(static_cast<uint32_t>(symbol));
  if ((count < 262144 && isPowerOf2(count)) || count % 262144 == 0)  // Update code tree
      tree = freqs.buildCodeTree();
  if (count % 262144 == 0)  // Reset frequency table
      freqs = FrequencyTable(initFreqs);
  \<close>
\<close>

definition update_code_tree :: "adaptive_state \<Rightarrow> adaptive_state attempt" where
  "update_code_tree st =
     (if (count st < 262144 \<and> isPowerOf2 (count st)) \<or> count st mod 262144 = 0 then
        (case buildCodeTree (freqs st) of
           Inl e \<Rightarrow> Inl (e, bout st)
         | Inr t \<Rightarrow> Inr (st\<lparr>tree := t, calls := calls st @ [BuildCodeTree (freqs st)]\<rparr>))
      else Inr st)"

definition reset_frequency_table :: "adaptive_state \<Rightarrow> adaptive_state" where
  "reset_frequency_table st =
     (if count st mod 262144 = 0 then st\<lparr>freqs := initFreqs, calls := calls st @ [ResetTable]\<rparr>
      else st)"

definition stream_step :: "adaptive_state \<Rightarrow> nat \<Rightarrow> adaptive_state attempt" where
  "stream_step st symbol =
     (case enc_write (tree st) (bout st) symbol of
        Inl e \<Rightarrow> Inl (e, bout st)
      | Inr bout1 \<Rightarrow>
          (let st1 = st\<lparr>bout := bout1, count := count st + 1, calls := calls st @ [EncWrite symbol]\<rparr> in
           case increment (freqs st1) symbol of
             Inl e \<Rightarrow> Inl (e, bout1)
           | Inr freqs1 \<Rightarrow>
               (let st2 = st1\<lparr>freqs := freqs1, calls := calls st1 @ [Increment symbol]\<rparr> in
                case update_code_tree st2 of
                  Inl x \<Rightarrow> Inl x
                | Inr st3 \<Rightarrow> Inr (reset_frequency_table st3))))"

function adaptive_loop ::
  "nat \<Rightarrow> mapped_view \<Rightarrow> nat \<Rightarrow> adaptive_state \<Rightarrow> (adaptive_state \<times> nat \<times> loop_exit) attempt"
where
  "adaptive_loop n data i st =
     (if i < n then
        (case data i of
           None \<Rightarrow> Inl (BusError i, bout st)
         | Some c \<Rightarrow>
            (let symbol = uint c in
             if symbol = EOF then Inr (st, i, Break)
             else if symbol < 0 \<or> symbol > 255 then Inl (LogicError ''Assertion error'', bout st)
             else (case stream_step st (nat symbol) of
                     Inl x \<Rightarrow> Inl x
                   | Inr st' \<Rightarrow> adaptive_loop n data (i + 1) st')))
      else Inr (st, i, Exhausted))"
  by pat_completeness auto
termination
  by (relation "measure (\<lambda>(n, data, i, st). n - i)") auto

declare adaptive_loop.simps [simp del]

text \<open>
  The \<^verbatim>\<open>try\<close> block up to the loop (INIT), and up to \<^verbatim>\<open>bout.finish()\<close>:
  \<^verbatim>\<open>
  const std::vector<uint32_t> initFreqs(257, 1);
  FrequencyTable freqs(initFreqs);
  HuffmanEncoder enc(bout);
  CodeTree tree = freqs.buildCodeTree();
  enc.codeTree = &tree;
  uint32_t count = 0;
  for (...) { ... }
  enc.write(256);  // EOF
  bout.finish();
  \<close>
\<close>

definition adaptive_init :: "BitOutputStream \<Rightarrow> adaptive_state attempt" where
  "adaptive_init b =
     (case buildCodeTree initFreqs of
        Inl e \<Rightarrow> Inl (e, b)
      | Inr t \<Rightarrow> Inr \<lparr>freqs = initFreqs, tree = t, count = 0, bout = b, calls = []\<rparr>)"

definition write_end_marker :: "adaptive_state \<Rightarrow> adaptive_state attempt" where
  "write_end_marker st =
     (case enc_write (tree st) (bout st) 256 of
        Inl e \<Rightarrow> Inl (e, bout st)
      | Inr b \<Rightarrow> Inr (st\<lparr>bout := finish b, calls := calls st @ [EncWrite 256, Finish]\<rparr>))"

definition adaptive_try :: "mapped_view \<Rightarrow> BitOutputStream \<Rightarrow> adaptive_state attempt" where
  "adaptive_try data b =
     (case adaptive_init b of
        Inl x \<Rightarrow> Inl x
      | Inr st0 \<Rightarrow>
          (case adaptive_loop numberOfBytes data 0 st0 of
             Inl x \<Rightarrow> Inl x
           | Inr (st, i, ex) \<Rightarrow> write_end_marker st))"


section \<open>Notions used in the statements\<close>

text \<open>The symbols at the leaves of all nodes of a priority forest.\<close>

definition forest_leaves :: "NodeWithFrequency list \<Rightarrow> nat set" where
  "forest_leaves q = (\<Union>x \<in> set q. leaves (snd (snd x)))"

text \<open>
  What holds of the adaptive driver's state at the head of its loop: the table has 257
  positive counts and the current tree has a leaf for every one of the 257 symbols.
\<close>

definition adaptive_inv :: "adaptive_state \<Rightarrow> bool" where
  "adaptive_inv st =
     (length (freqs st) = 257 \<and> list_all (\<lambda>f. 0 < f) (freqs st) \<and> leaves (tree st) = {0..<257})"

text \<open>The conditions of the two \<^verbatim>\<open>if\<close> statements at the end of the loop body.\<close>

definition rebuild_due :: "32 word \<Rightarrow> bool" where
  "rebuild_due c = ((c < 262144 \<and> isPowerOf2 c) \<or> c mod 262144 = 0)"

definition reset_due :: "32 word \<Rightarrow> bool" where
  "reset_due c = (c mod 262144 = 0)"

text \<open>
  The state of the adaptive driver after the first \<open>k\<close> iterations of its loop, started
  in \<open>st0\<close> (\<open>adaptive_loop_prefix\<close> below: the loop passes through these states).
\<close>

primrec after_iterations :: "mapped_view \<Rightarrow> adaptive_state \<Rightarrow> nat \<Rightarrow> adaptive_state attempt" where
  "after_iterations data st0 0 = Inr st0"
| "after_iterations data st0 (Suc k) =
     (case after_iterations data st0 k of
        Inl x \<Rightarrow> Inl x
      | Inr s \<Rightarrow>
          (case data k of
             None \<Rightarrow> Inl (BusError k, bout s)
           | Some c \<Rightarrow> stream_step s (unat c)))"

text \<open>The calls made between two states of one run, and whether a call builds a tree.\<close>

fun is_build :: "call \<Rightarrow> bool" where
  "is_build (BuildCodeTree ft) = True"
| "is_build c = False"

definition calls_during :: "adaptive_state \<Rightarrow> adaptive_state \<Rightarrow> call list" where
  "calls_during s s' = drop (length (calls s)) (calls s')"




section \<open>Facts about bytes and the mapped view\<close>

lemma byte_as_int_range: "0 \<le> uint (c :: byte) \<and> uint c \<le> 255"
proof -
  have "uint c < 2 ^ 8" using uint_bounded [of c] by simp
  then show ?thesis by simp
qed

lemma byte_never_EOF: "uint (c :: byte) \<noteq> EOF"
proof -
  have "0 \<le> uint c" by simp
  then show ?thesis unfolding EOF_def by linarith
qed

lemma byte_not_above: "(255 < uint (c :: byte)) = False"
  using byte_as_int_range [of c] by simp

lemma nat_uint_byte: "nat (uint (c :: byte)) = unat c"
  by simp

lemma unat_byte_less: "unat (c :: byte) < 256"
  using unsigned_less [of c, where ?'a = nat] by simp

lemma length_le_pages_end: "len \<le> pages_end pageSize len"
proof (cases "pageSize = 0")
  case True
  then show ?thesis by (simp add: pages_end_def)
next
  case False
  let ?a = "len + pageSize - 1"
  have eq: "?a div pageSize * pageSize = ?a - ?a mod pageSize"
    by (simp add: minus_mod_eq_div_mult)
  have m: "?a mod pageSize < pageSize" using False by simp
  have "len \<le> ?a - ?a mod pageSize" using m by linarith
  then show ?thesis using False by (simp only: pages_end_def eq if_False)
qed

lemma pages_end_empty: "pages_end pageSize 0 = 0"
  by (simp add: pages_end_def)

lemma view_of_readable:
  "j < pages_end pageSize (length file) \<Longrightarrow> view_of pageSize file j = Some (contents file j)"
  by (simp add: view_of_def)


section \<open>Facts about the SCAN loop of the static driver\<close>

lemma occurrences_empty: "n \<le> i \<Longrightarrow> occurrences d i n b = 0"
  by (simp add: occurrences_def)

lemma occurrences_step:
  "i < n \<Longrightarrow> occurrences d i n b = (if unat (d i) = b then 1 else 0) + occurrences d (Suc i) n b"
  by (simp add: occurrences_def upt_conv_Cons)

text \<open>As long as the reads succeed the loop counts: from offset \<open>i\<close> it reaches offset \<open>u\<close>
  with the table increased by the occurrences in between.\<close>

lemma scan_loop_prefix:
  assumes "length ft = 257" "i \<le> u" "u \<le> n"
    and "\<And>j. i \<le> j \<Longrightarrow> j < u \<Longrightarrow> data j = Some (d j)"
  shows "scan_loop n data i ft =
           scan_loop n data u (map (\<lambda>b. ft ! b + occurrences d i u b) [0..<257])"
  using assms
proof (induction "u - i" arbitrary: i ft)
  case 0
  then have "map (\<lambda>b. ft ! b + occurrences d i u b) [0..<257] = map (\<lambda>b. ft ! b) [0..<257]"
    by (simp add: occurrences_empty)
  also have "\<dots> = ft"
    using "0.prems"(1) map_nth [of ft] by simp
  finally show ?case using 0 by simp
next
  case (Suc k)
  then have iu: "i < u" and k: "k = u - Suc i" by simp_all
  with Suc.prems have i: "i < n" by simp
  have di: "data i = Some (d i)" using Suc.prems(4) [of i] iu by simp
  let ?s = "unat (d i)"
  let ?f = "ft[?s := ft ! ?s + 1]"
  have s: "?s < 257" using unat_byte_less [of "d i"] by simp
  have inc: "increment ft (nat (uint (d i))) = Inr ?f"
    using s Suc.prems(1) by (simp add: increment_def)
  have len: "length ?f = 257" using Suc.prems(1) by simp
  have step: "scan_loop n data i ft = scan_loop n data (Suc i) ?f"
    using i di inc byte_never_EOF [of "d i"] byte_as_int_range [of "d i"]
    by (simp add: scan_loop.simps [of n data i ft] Let_def)
  have IH: "scan_loop n data (Suc i) ?f =
      scan_loop n data u (map (\<lambda>b. ?f ! b + occurrences d (Suc i) u b) [0..<257])"
    using Suc.hyps(1) [OF k len _ Suc.prems(3)] iu Suc.prems(4) by simp
  have tab: "map (\<lambda>b. ?f ! b + occurrences d (Suc i) u b) [0..<257]
           = map (\<lambda>b. ft ! b + occurrences d i u b) [0..<257]"
  proof (rule map_cong [OF refl])
    fix b assume "b \<in> set [0..<257]"
    then have b: "b < length ft" using Suc.prems(1) by simp
    show "?f ! b + occurrences d (Suc i) u b = ft ! b + occurrences d i u b"
      using b s by (simp add: occurrences_step [OF iu] nth_list_update)
  qed
  show ?case by (simp only: step IH tab)
qed

lemma scan_loop_counts:
  assumes "length ft = 257" "i \<le> n"
    and "\<And>j. i \<le> j \<Longrightarrow> j < n \<Longrightarrow> data j = Some (d j)"
  shows "scan_loop n data i ft =
           Inr (map (\<lambda>b. ft ! b + occurrences d i n b) [0..<257], n, Exhausted)"
  using scan_loop_prefix [OF assms(1,2) order_refl assms(3)]
  by (simp add: scan_loop.simps [of n data n])


lemma occurrences_none:
  "(\<And>j. i \<le> j \<Longrightarrow> j < n \<Longrightarrow> unat (d j) \<noteq> b) \<Longrightarrow> occurrences d i n b = 0"
  by (auto simp: occurrences_def filter_empty_conv)

lemma occurrences_256: "occurrences d i n 256 = 0"
  using unat_byte_less by (intro occurrences_none) (metis less_irrefl)

lemma occurrences_le: "occurrences d i n b \<le> n - i"
  unfolding occurrences_def using length_filter_le [of "\<lambda>j. unat (d j) = b" "[i..<n]"] by simp

lemma zero_table:
  "map (\<lambda>b. replicate 257 0 ! b + occurrences d 0 n b) [0..<257]
      = map (\<lambda>b. occurrences d 0 n b) [0..<257]"
  by (rule map_cong) auto

lemma scan_result:
  assumes "\<And>j. j < numberOfBytes \<Longrightarrow> data j = Some (d j)"
  shows "scan data = Inr ((map (\<lambda>b. occurrences d 0 numberOfBytes b) [0..<257])[256 := 1])"
proof -
  have "scan_loop numberOfBytes data 0 (replicate 257 0) =
      Inr (map (\<lambda>b. replicate 257 0 ! b + occurrences d 0 numberOfBytes b) [0..<257],
           numberOfBytes, Exhausted)"
    by (rule scan_loop_counts) (simp_all add: assms)
  then show ?thesis
    by (simp add: zero_table scan_def increment_def occurrences_256 del: upt_Suc)
qed

text \<open>What the SCAN phase counts: the bytes at the offsets below \<open>numberOfBytes\<close> of the
  mapped view, and nothing else.\<close>

lemma scan_nth:
  assumes "\<And>j. j < numberOfBytes \<Longrightarrow> data j = Some (d j)"
  shows "\<exists>ft. scan data = Inr ft \<and> length ft = 257 \<and> ft ! 256 = 1 \<and>
     (\<forall>b < 256. ft ! b = occurrences d 0 numberOfBytes b)"
  by (simp add: scan_result [OF assms] nth_list_update del: upt_Suc)




text \<open>The counts of the table fit the \<^verbatim>\<open>uint32_t\<close> of the code.\<close>

lemma scan_counts_fit_uint32:
  assumes "\<And>j. j < numberOfBytes \<Longrightarrow> data j = Some (d j)"
  shows "\<exists>ft. scan data = Inr ft \<and> list_all (\<lambda>f. f < 2 ^ 32) ft"
proof -
  have "occurrences d 0 numberOfBytes b < 2 ^ 32" for b
    using occurrences_le [of d 0 numberOfBytes b] by (simp add: numberOfBytes_def)
  then have "list_all (\<lambda>f. f < 2 ^ 32) ((map (\<lambda>b. occurrences d 0 numberOfBytes b) [0..<257])[256 := 1])"
    by (auto simp: list_all_length nth_list_update simp del: upt_Suc)
  then show ?thesis by (simp only: scan_result [OF assms]) simp
qed

text \<open>The view of a file of at least \<open>numberOfBytes\<close> bytes shows the file's bytes at every
  offset the loops read.\<close>

lemma view_of_long_file:
  "numberOfBytes \<le> length file \<Longrightarrow> j < numberOfBytes \<Longrightarrow>
   view_of pageSize file j = Some (contents file j)"
  using length_le_pages_end [of "length file" pageSize] by (intro view_of_readable) simp

section \<open>Claims about the SCAN phase\<close>

text \<open>
  Claim C6 says that after the SCAN phase the frequency table holds, for every byte value,
  the number of its occurrences in the entire input, and 1 for the end marker 256. The
  loop counts the bytes at the offsets below \<open>numberOfBytes\<close> of the mapped view and nothing
  else (\<open>scan_nth\<close>). On the input file made of \<open>numberOfBytes\<close> bytes 0 followed by one
  byte 1, the byte value 1 occurs once in the file and the table built by SCAN holds 0
  for it, whatever the size of a page.
\<close>

theorem scan_counts_first_numberOfBytes_only:
  "\<exists>ft. scan (view_of pageSize (replicate numberOfBytes 0 @ [1])) = Inr ft
      \<and> ft ! 1 = 0
      \<and> occurrences_in_file (replicate numberOfBytes 0 @ [1]) 1 = 1"
proof -
  let ?file = "replicate numberOfBytes 0 @ [1 :: byte]"
  have r: "view_of pageSize ?file j = Some (contents ?file j)" if "j < numberOfBytes" for j
    using that by (intro view_of_long_file) simp_all
  have "occurrences (contents ?file) 0 numberOfBytes 1 = 0"
    by (rule occurrences_none) (simp add: contents_def nth_append)
  moreover have "occurrences_in_file ?file 1 = 1"
    by (simp add: occurrences_in_file_def)
  ultimately show ?thesis
    using scan_nth [of "view_of pageSize ?file" "contents ?file", OF r] by auto
qed

section \<open>Facts about isPowerOf2 and the two conditions\<close>

lemma and_pred_zero_iff:
  fixes x :: nat
  shows "0 < x \<Longrightarrow> (x AND (x - 1) = 0) = (\<exists>k. x = 2 ^ k)"
proof (induction x rule: less_induct)
  case (less x)
  show ?case
  proof (cases "even x")
    case True
    then obtain y where y: "x = 2 * y" by (elim evenE)
    with less.prems have ypos: "0 < y" by simp
    have pred: "x - 1 = 2 * (y - 1) + 1" using y ypos by simp
    have "x AND (x - 1) = 2 * (y AND (y - 1))"
      unfolding pred by (subst and_nat_rec) (simp add: y)
    then have "(x AND (x - 1) = 0) = (y AND (y - 1) = 0)" by simp
    also have "\<dots> = (\<exists>k. y = 2 ^ k)"
      using less.IH [of y] ypos y by simp
    also have "\<dots> = (\<exists>k. x = 2 ^ k)"
    proof
      assume "\<exists>k. y = 2 ^ k"
      then obtain k where "y = 2 ^ k" ..
      then have "x = 2 ^ Suc k" using y by simp
      then show "\<exists>k. x = 2 ^ k" ..
    next
      assume "\<exists>k. x = 2 ^ k"
      then obtain k where k: "x = 2 ^ k" ..
      with True ypos y have "k \<noteq> 0" by (cases k) auto
      then obtain j where "k = Suc j" by (cases k) auto
      with k y have "y = 2 ^ j" by simp
      then show "\<exists>k. y = 2 ^ k" ..
    qed
    finally show ?thesis .
  next
    case False
    then obtain y where y: "x = 2 * y + 1" by (elim oddE)
    have "x AND (x - 1) = 2 * y"
      by (subst and_nat_rec) (simp add: y)
    then have l: "(x AND (x - 1) = 0) = (y = 0)" by simp
    have r: "(\<exists>k. x = 2 ^ k) = (y = 0)"
    proof
      assume "\<exists>k. x = 2 ^ k"
      then obtain k where k: "x = 2 ^ k" ..
      show "y = 0"
      proof (cases k)
        case 0 with k y show ?thesis by simp
      next
        case (Suc j) with k have "even x" by simp
        with False show ?thesis by simp
      qed
    next
      assume "y = 0"
      then have "x = 2 ^ 0" using y by simp
      then show "\<exists>k. x = 2 ^ k" ..
    qed
    show ?thesis using l r by simp
  qed
qed

lemma isPowerOf2_iff: "isPowerOf2 x = (\<exists>k. unat x = 2 ^ k)"
proof (cases "x = 0")
  case True
  then show ?thesis by (simp add: isPowerOf2_def)
next
  case False
  then have pos: "0 < unat x" by (simp add: unat_gt_0)
  have "((x AND (x - 1)) = 0) = (unat (x AND (x - 1)) = 0)"
    by (simp add: unat_eq_0)
  also have "unat (x AND (x - 1)) = unat x AND (unat x - 1)"
    using False by (simp add: unsigned_and_eq unat_minus_one)
  also have "(unat x AND (unat x - 1) = 0) = (\<exists>k. unat x = 2 ^ k)"
    by (rule and_pred_zero_iff [OF pos])
  finally show ?thesis using False by (simp add: isPowerOf2_def word_greater_zero_iff)
qed

section \<open>Facts about code trees\<close>

lemma set_enqueue: "set (enqueue x q) = insert x (set q)"
  by (induction q) auto

lemma forest_leaves_enqueue:
  "forest_leaves (enqueue x q) = leaves (snd (snd x)) \<union> forest_leaves q"
  by (simp add: forest_leaves_def set_enqueue)

lemma merge_all_leaves:
  "q \<noteq> [] \<Longrightarrow> \<exists>t. merge_all q = Some t \<and> leaves t = forest_leaves q"
proof (induction q rule: merge_all.induct)
  case 1
  then show ?case by simp
next
  case (2 x)
  then show ?case by (simp add: forest_leaves_def)
next
  case (3 x y q)
  have "enqueue (merge_nodes x y) q \<noteq> []"
    using length_enqueue [of "merge_nodes x y" q] by (metis length_0_conv nat.distinct(1))
  from "3.IH" [OF this] obtain t where
    t: "merge_all (enqueue (merge_nodes x y) q) = Some t"
       "leaves t = forest_leaves (enqueue (merge_nodes x y) q)" by blast
  have "forest_leaves (enqueue (merge_nodes x y) q)
      = leaves (snd (snd (merge_nodes x y))) \<union> forest_leaves q"
    by (rule forest_leaves_enqueue)
  also have "\<dots> = forest_leaves (x # y # q)"
    by (auto simp: merge_nodes_def forest_leaves_def)
  finally show ?case using t by simp
qed

lemma set_foldr_enqueue: "set (foldr enqueue xs []) = set xs"
  by (induction xs) (auto simp: set_enqueue)

lemma forest_leaves_leaf_nodes:
  "forest_leaves (foldr enqueue (leaf_nodes ft) []) = {s. s < length ft \<and> 0 < ft ! s}"
  by (auto simp: forest_leaves_def set_foldr_enqueue leaf_nodes_def)

lemma buildCodeTree_leaves:
  assumes "s < length ft" "0 < ft ! s"
  shows "\<exists>t. buildCodeTree ft = Inr t \<and> leaves t = {s. s < length ft \<and> 0 < ft ! s}"
proof -
  have "(ft ! s, s, Leaf s) \<in> set (foldr enqueue (leaf_nodes ft) [])"
    using assms by (simp add: set_foldr_enqueue leaf_nodes_def)
  then have "foldr enqueue (leaf_nodes ft) [] \<noteq> []" by auto
  from merge_all_leaves [OF this] show ?thesis
    by (auto simp: buildCodeTree_def forest_leaves_leaf_nodes)
qed

lemma getCode_leaves: "(\<exists>p. getCode t s = Some p) = (s \<in> leaves t)"
  by (induction t) (auto split: option.splits)

lemma enc_write_leaf:
  "s \<in> leaves t \<Longrightarrow> \<exists>p. getCode t s = Some p \<and> enc_write t b s = Inr (foldl write_bit b p)"
  using getCode_leaves [of t s] by (auto simp: enc_write_def)

section \<open>Facts about the adaptive driver\<close>

lemma word_mod_262144_iff: "((c :: 32 word) mod 262144 = 0) = (262144 dvd unat c)"
proof -
  have "(c mod 262144 = 0) = (unat (c mod 262144) = 0)" by (simp add: unat_eq_0)
  also have "unat (c mod 262144) = unat c mod 262144" by (simp add: unat_mod_distrib)
  finally show ?thesis by (simp add: dvd_eq_mod_eq_0)
qed

lemma word_less_262144_iff: "((c :: 32 word) < 262144) = (unat c < 262144)"
  by (simp add: word_less_nat_alt)

lemma rebuild_due_iff:
  "rebuild_due c = ((unat c < 262144 \<and> (\<exists>j. unat c = 2 ^ j)) \<or> 262144 dvd unat c)"
  by (simp add: rebuild_due_def word_mod_262144_iff word_less_262144_iff isPowerOf2_iff)

lemma reset_due_iff: "reset_due c = (262144 dvd unat c)"
  by (simp add: reset_due_def word_mod_262144_iff)

lemma incremented_table:
  assumes "length ft = 257" "list_all (\<lambda>f. 0 < f) ft" "s < 257"
  shows "increment ft s = Inr (ft[s := ft ! s + 1])"
    and "length (ft[s := ft ! s + 1]) = 257"
    and "list_all (\<lambda>f. 0 < f) (ft[s := ft ! s + 1])"
    and "\<exists>t. buildCodeTree (ft[s := ft ! s + 1]) = Inr t \<and> leaves t = {0..<257}"
proof -
  let ?f = "ft[s := ft ! s + 1]"
  show "increment ft s = Inr ?f" using assms by (simp add: increment_def)
  show len: "length ?f = 257" using assms by simp
  show pos: "list_all (\<lambda>f. 0 < f) ?f"
    using assms by (auto simp: list_all_length nth_list_update)
  have "0 < ?f ! 0" using pos len by (simp add: list_all_length)
  with len have "\<exists>t. buildCodeTree ?f = Inr t \<and> leaves t = {x. x < length ?f \<and> 0 < ?f ! x}"
    by (intro buildCodeTree_leaves [of 0]) simp_all
  moreover have "{x. x < length ?f \<and> 0 < ?f ! x} = {0..<257}"
    using pos len by (auto simp: list_all_length)
  ultimately show "\<exists>t. buildCodeTree ?f = Inr t \<and> leaves t = {0..<257}" by simp
qed

lemma stream_step_result:
  assumes inv: "adaptive_inv st" and s: "symbol < 257"
  shows "\<exists>p t. getCode (tree st) symbol = Some p
          \<and> buildCodeTree ((freqs st)[symbol := freqs st ! symbol + 1]) = Inr t
          \<and> leaves t = {0..<257}
          \<and> stream_step st symbol = Inr
             \<lparr>freqs = (if reset_due (count st + 1) then initFreqs
                       else (freqs st)[symbol := freqs st ! symbol + 1]),
              tree = (if rebuild_due (count st + 1) then t else tree st),
              count = count st + 1,
              bout = foldl write_bit (bout st) p,
              calls = calls st @ [EncWrite symbol, Increment symbol]
                 @ (if rebuild_due (count st + 1)
                    then [BuildCodeTree ((freqs st)[symbol := freqs st ! symbol + 1])] else [])
                 @ (if reset_due (count st + 1) then [ResetTable] else [])\<rparr>"
proof -
  let ?f = "(freqs st)[symbol := freqs st ! symbol + 1]"
  from inv have len: "length (freqs st) = 257" and pos: "list_all (\<lambda>f. 0 < f) (freqs st)"
    and lv: "leaves (tree st) = {0..<257}" by (simp_all add: adaptive_inv_def)
  from s lv have "symbol \<in> leaves (tree st)" by simp
  from enc_write_leaf [OF this, of "bout st"] obtain p where
    p: "getCode (tree st) symbol = Some p"
       "enc_write (tree st) (bout st) symbol = Inr (foldl write_bit (bout st) p)" by blast
  have inc: "increment (freqs st) symbol = Inr ?f" by (rule incremented_table(1) [OF len pos s])
  from incremented_table(4) [OF len pos s] obtain t where
    t: "buildCodeTree ?f = Inr t" "leaves t = {0..<257}" by blast
  have "stream_step st symbol = Inr
             \<lparr>freqs = (if reset_due (count st + 1) then initFreqs else ?f),
              tree = (if rebuild_due (count st + 1) then t else tree st),
              count = count st + 1,
              bout = foldl write_bit (bout st) p,
              calls = calls st @ [EncWrite symbol, Increment symbol]
                 @ (if rebuild_due (count st + 1) then [BuildCodeTree ?f] else [])
                 @ (if reset_due (count st + 1) then [ResetTable] else [])\<rparr>"
    using p(2) inc t(1)
    by (simp add: stream_step_def update_code_tree_def reset_frequency_table_def
        rebuild_due_def reset_due_def Let_def)
  with p(1) t show ?thesis by blast
qed

lemma initFreqs_facts: "length initFreqs = 257" "list_all (\<lambda>f. 0 < f) initFreqs"
  by (simp_all add: initFreqs_def list_all_length)

lemma stream_step_inv:
  assumes inv: "adaptive_inv st" and s: "symbol < 257"
  shows "\<exists>st'. stream_step st symbol = Inr st' \<and> adaptive_inv st' \<and> count st' = count st + 1"
proof -
  from inv have len: "length (freqs st) = 257" and pos: "list_all (\<lambda>f. 0 < f) (freqs st)"
    and lv: "leaves (tree st) = {0..<257}" by (simp_all add: adaptive_inv_def)
  from stream_step_result [OF inv s] obtain st' t where
    r: "stream_step st symbol = Inr st'"
       "leaves t = {0..<257}"
       "freqs st' = (if reset_due (count st + 1) then initFreqs
                       else (freqs st)[symbol := freqs st ! symbol + 1])"
       "tree st' = (if rebuild_due (count st + 1) then t else tree st)"
       "count st' = count st + 1"
    by force
  have "adaptive_inv st'"
    using r(2-4) lv incremented_table(2,3) [OF len pos s] initFreqs_facts
    by (simp add: adaptive_inv_def)
  with r(1,5) show ?thesis by blast
qed

lemma adaptive_loop_step:
  "k < n \<Longrightarrow> adaptive_loop n data k s =
     (case data k of
        None \<Rightarrow> Inl (BusError k, bout s)
      | Some c \<Rightarrow>
          (case stream_step s (unat c) of
             Inl x \<Rightarrow> Inl x
           | Inr s' \<Rightarrow> adaptive_loop n data (Suc k) s'))"
  by (simp add: adaptive_loop.simps [of n data k s] Let_def byte_never_EOF byte_not_above
      split: option.splits sum.splits)

lemma adaptive_loop_prefix:
  "k \<le> n \<Longrightarrow> adaptive_loop n data 0 st0 =
     (case after_iterations data st0 k of Inl x \<Rightarrow> Inl x | Inr s \<Rightarrow> adaptive_loop n data k s)"
proof (induction k)
  case 0
  then show ?case by simp
next
  case (Suc k)
  then have k: "k < n" by simp
  show ?case
    using Suc.IH k by (simp add: adaptive_loop_step [OF k] split: sum.splits option.splits)
qed

lemma adaptive_loop_after:
  "adaptive_loop n data 0 st0 =
     (case after_iterations data st0 n of Inl x \<Rightarrow> Inl x | Inr s \<Rightarrow> Inr (s, n, Exhausted))"
  using adaptive_loop_prefix [of n n data st0]
  by (simp add: adaptive_loop.simps [of n data n] split: sum.splits)

lemma after_iterations_inv:
  assumes "adaptive_inv st0" and "\<And>j. j < k \<Longrightarrow> data j = Some (d j)"
  shows "\<exists>s. after_iterations data st0 k = Inr s \<and> adaptive_inv s \<and> count s = count st0 + of_nat k"
  using assms(2)
proof (induction k)
  case 0
  then show ?case using assms(1) by simp
next
  case (Suc k)
  then obtain s where s: "after_iterations data st0 k = Inr s" "adaptive_inv s"
    "count s = count st0 + of_nat k" by force
  have dk: "data k = Some (d k)" using Suc.prems by simp
  have "unat (d k) < 257" using unat_byte_less [of "d k"] by simp
  from stream_step_inv [OF s(2) this] s(1,3) dk show ?case by auto
qed

lemma adaptive_init_result:
  "\<exists>t. buildCodeTree initFreqs = Inr t \<and> leaves t = {0..<257} \<and>
     adaptive_init b = Inr \<lparr>freqs = initFreqs, tree = t, count = 0, bout = b, calls = []\<rparr>"
proof -
  have "0 < initFreqs ! 0" by (simp add: initFreqs_def)
  then have "\<exists>t. buildCodeTree initFreqs = Inr t \<and> leaves t = {x. x < length initFreqs \<and> 0 < initFreqs ! x}"
    by (intro buildCodeTree_leaves [of 0]) (simp_all add: initFreqs_def)
  moreover have "{x. x < length initFreqs \<and> 0 < initFreqs ! x} = {0..<257}"
    by (auto simp: initFreqs_def)
  ultimately show ?thesis by (auto simp: adaptive_init_def)
qed

lemma adaptive_init_inv:
  "\<exists>st0. adaptive_init b = Inr st0 \<and> adaptive_inv st0 \<and> count st0 = 0 \<and> bout st0 = b \<and> calls st0 = []
      \<and> freqs st0 = initFreqs"
  using adaptive_init_result [of b] initFreqs_facts by (auto simp: adaptive_inv_def)

lemma unat_count_of_nat: "k \<le> numberOfBytes \<Longrightarrow> unat (of_nat k :: 32 word) = k"
  by (simp add: unat_of_nat numberOfBytes_def take_bit_nat_eq_self)

lemma no_rebuild_due_after_end_marker:
  "\<not> ((Suc numberOfBytes < 262144 \<and> (\<exists>j. Suc numberOfBytes = 2 ^ j)) \<or> 262144 dvd Suc numberOfBytes)"
  by (simp add: numberOfBytes_def)

text \<open>Iteration \<open>k + 1\<close> of a run whose reads up to offset \<open>k\<close> succeed: the states before and
  after it, and what it does.\<close>

lemma run_states:
  assumes "k < numberOfBytes" and rd: "\<And>j. j \<le> k \<Longrightarrow> data j = Some (d j)"
  shows "\<exists>st0 s s' p t.
      adaptive_init new_stream = Inr st0
    \<and> after_iterations data st0 k = Inr s \<and> adaptive_inv s \<and> unat (count s) = k
    \<and> after_iterations data st0 (Suc k) = Inr s' \<and> unat (count s') = Suc k
    \<and> adaptive_loop numberOfBytes data 0 st0 = adaptive_loop numberOfBytes data k s
    \<and> adaptive_loop numberOfBytes data 0 st0 = adaptive_loop numberOfBytes data (Suc k) s'
    \<and> getCode (tree s) (unat (d k)) = Some p
    \<and> buildCodeTree ((freqs s)[unat (d k) := freqs s ! unat (d k) + 1]) = Inr t
    \<and> freqs s' = (if reset_due (count s') then initFreqs
                  else (freqs s)[unat (d k) := freqs s ! unat (d k) + 1])
    \<and> tree s' = (if rebuild_due (count s') then t else tree s)
    \<and> bout s' = foldl write_bit (bout s) p
    \<and> calls s' = calls s @ [EncWrite (unat (d k)), Increment (unat (d k))]
         @ (if rebuild_due (count s')
            then [BuildCodeTree ((freqs s)[unat (d k) := freqs s ! unat (d k) + 1])] else [])
         @ (if reset_due (count s') then [ResetTable] else [])"
proof -
  from adaptive_init_inv [of new_stream] obtain st0 where
    st0: "adaptive_init new_stream = Inr st0" "adaptive_inv st0" "count st0 = 0" by blast
  have rd': "\<And>j. j < k \<Longrightarrow> data j = Some (d j)" using rd by simp
  have dk: "data k = Some (d k)" using rd by simp
  from after_iterations_inv [where data = data and d = d, OF st0(2) rd'] obtain s where
    s: "after_iterations data st0 k = Inr s" "adaptive_inv s" "count s = of_nat k"
    using st0(3) by auto
  have sym: "unat (d k) < 257" using unat_byte_less [of "d k"] by simp
  from stream_step_result [OF s(2) sym] obtain p t where
    pt: "getCode (tree s) (unat (d k)) = Some p"
        "buildCodeTree ((freqs s)[unat (d k) := freqs s ! unat (d k) + 1]) = Inr t"
    and step: "stream_step s (unat (d k)) = Inr
             \<lparr>freqs = (if reset_due (count s + 1) then initFreqs
                       else (freqs s)[unat (d k) := freqs s ! unat (d k) + 1]),
              tree = (if rebuild_due (count s + 1) then t else tree s),
              count = count s + 1,
              bout = foldl write_bit (bout s) p,
              calls = calls s @ [EncWrite (unat (d k)), Increment (unat (d k))]
                 @ (if rebuild_due (count s + 1)
                    then [BuildCodeTree ((freqs s)[unat (d k) := freqs s ! unat (d k) + 1])] else [])
                 @ (if reset_due (count s + 1) then [ResetTable] else [])\<rparr>" (is "_ = Inr ?s'")
    by blast
  have after': "after_iterations data st0 (Suc k) = Inr ?s'" using s(1) step dk by simp
  have c': "count ?s' = of_nat (Suc k)" using s(3) by simp
  have uk: "unat (count s) = k" using s(3) assms(1) unat_count_of_nat [of k] by simp
  have uk': "unat (count ?s') = Suc k"
    unfolding c' using assms(1) unat_count_of_nat [of "Suc k"] by simp
  have l1: "adaptive_loop numberOfBytes data 0 st0 = adaptive_loop numberOfBytes data k s"
    using adaptive_loop_prefix [of k numberOfBytes data st0] assms(1) s(1) by simp
  have l2: "adaptive_loop numberOfBytes data 0 st0 = adaptive_loop numberOfBytes data (Suc k) ?s'"
    using adaptive_loop_prefix [of "Suc k" numberOfBytes data st0] assms(1) after' by simp
  have f: "freqs ?s' = (if reset_due (count ?s') then initFreqs
                  else (freqs s)[unat (d k) := freqs s ! unat (d k) + 1])"
    and t: "tree ?s' = (if rebuild_due (count ?s') then t else tree s)"
    and b: "bout ?s' = foldl write_bit (bout s) p"
    and c: "calls ?s' = calls s @ [EncWrite (unat (d k)), Increment (unat (d k))]
         @ (if rebuild_due (count ?s')
            then [BuildCodeTree ((freqs s)[unat (d k) := freqs s ! unat (d k) + 1])] else [])
         @ (if reset_due (count ?s') then [ResetTable] else [])"
    by simp_all
  show ?thesis
    by (intro exI [of _ st0] exI [of _ s] exI [of _ ?s'] exI [of _ p] exI [of _ t] conjI
        st0(1) s(1,2) uk after' uk' l1 l2 pt f t b c)
qed

lemma stream_step_marker:
  assumes inv: "adaptive_inv st" and s: "symbol < 256"
    and m: "freqs st ! 256 = 1" "Increment 256 \<notin> set (calls st)"
    and st': "stream_step st symbol = Inr st'"
  shows "freqs st' ! 256 = 1 \<and> Increment 256 \<notin> set (calls st')"
proof -
  from s have s257: "symbol < 257" by simp
  from inv have len: "length (freqs st) = 257" by (simp add: adaptive_inv_def)
  from stream_step_result [OF inv s257] obtain p t where
    eq: "stream_step st symbol = Inr
             \<lparr>freqs = (if reset_due (count st + 1) then initFreqs
                       else (freqs st)[symbol := freqs st ! symbol + 1]),
              tree = (if rebuild_due (count st + 1) then t else tree st),
              count = count st + 1,
              bout = foldl write_bit (bout st) p,
              calls = calls st @ [EncWrite symbol, Increment symbol]
                 @ (if rebuild_due (count st + 1)
                    then [BuildCodeTree ((freqs st)[symbol := freqs st ! symbol + 1])] else [])
                 @ (if reset_due (count st + 1) then [ResetTable] else [])\<rparr>"
    by blast
  have f: "freqs st' = (if reset_due (count st + 1) then initFreqs
                       else (freqs st)[symbol := freqs st ! symbol + 1])"
    using st' unfolding eq by auto
  have c: "calls st' = calls st @ [EncWrite symbol, Increment symbol]
                 @ (if rebuild_due (count st + 1)
                    then [BuildCodeTree ((freqs st)[symbol := freqs st ! symbol + 1])] else [])
                 @ (if reset_due (count st + 1) then [ResetTable] else [])"
    using st' unfolding eq by auto
  have "freqs st' ! 256 = 1"
    using f m(1) s len by (simp add: initFreqs_def nth_list_update)
  moreover have "Increment 256 \<notin> set (calls st')"
    using c m(2) s by auto
  ultimately show ?thesis by simp
qed

lemma after_iterations_marker:
  assumes "adaptive_inv st0" "freqs st0 ! 256 = 1" "Increment 256 \<notin> set (calls st0)"
    and "\<And>j. j < k \<Longrightarrow> data j = Some (d j)"
  shows "\<exists>s. after_iterations data st0 k = Inr s \<and> adaptive_inv s \<and> count s = count st0 + of_nat k
            \<and> freqs s ! 256 = 1 \<and> Increment 256 \<notin> set (calls s)"
  using assms(4)
proof (induction k)
  case 0
  show ?case using assms(1-3) by simp
next
  case (Suc k)
  then obtain s where s: "after_iterations data st0 k = Inr s" "adaptive_inv s"
    "count s = count st0 + of_nat k" "freqs s ! 256 = 1" "Increment 256 \<notin> set (calls s)" by force
  have dk: "data k = Some (d k)" using Suc.prems by simp
  have b: "unat (d k) < 256" by (rule unat_byte_less)
  then have "unat (d k) < 257" by simp
  from stream_step_inv [OF s(2) this] obtain s' where
    s': "stream_step s (unat (d k)) = Inr s'" "adaptive_inv s'" "count s' = count s + 1" by blast
  from stream_step_marker [OF s(2) b s(4,5) s'(1)] s' s(1,3) dk show ?case by simp
qed

text \<open>The \<^verbatim>\<open>try\<close> block of the adaptive driver on a view whose offsets below
  \<open>numberOfBytes\<close> are all readable.\<close>

lemma adaptive_try_result:
  assumes "\<And>j. j < numberOfBytes \<Longrightarrow> data j = Some (d j)"
  shows "\<exists>st0 sn p.
      adaptive_init new_stream = Inr st0
    \<and> adaptive_loop numberOfBytes data 0 st0 = Inr (sn, numberOfBytes, Exhausted)
    \<and> adaptive_inv sn
    \<and> unat (count sn) = numberOfBytes
    \<and> freqs sn ! 256 = 1
    \<and> Increment 256 \<notin> set (calls sn)
    \<and> getCode (tree sn) 256 = Some p
    \<and> adaptive_try data new_stream =
        Inr (sn\<lparr>bout := finish (foldl write_bit (bout sn) p), calls := calls sn @ [EncWrite 256, Finish]\<rparr>)"
proof -
  from adaptive_init_inv [of new_stream] obtain st0 where
    st0: "adaptive_init new_stream = Inr st0" "adaptive_inv st0" "count st0 = 0"
      "calls st0 = []" "freqs st0 = initFreqs" by blast
  have "freqs st0 ! 256 = 1" "Increment 256 \<notin> set (calls st0)"
    using st0(4,5) by (simp_all add: initFreqs_def)
  from after_iterations_marker [where data = data and d = d, OF st0(2) this assms] obtain sn where
    sn: "after_iterations data st0 numberOfBytes = Inr sn" "adaptive_inv sn"
      "count sn = of_nat numberOfBytes" "freqs sn ! 256 = 1" "Increment 256 \<notin> set (calls sn)"
    using st0(3) by auto
  have loop: "adaptive_loop numberOfBytes data 0 st0 = Inr (sn, numberOfBytes, Exhausted)"
    using adaptive_loop_after [of numberOfBytes data st0] sn(1) by simp
  have cnt: "unat (count sn) = numberOfBytes"
    using sn(3) unat_count_of_nat [of numberOfBytes] by simp
  have "256 \<in> leaves (tree sn)" using sn(2) by (simp add: adaptive_inv_def)
  from enc_write_leaf [OF this, of "bout sn"] obtain p where
    p: "getCode (tree sn) 256 = Some p"
       "enc_write (tree sn) (bout sn) 256 = Inr (foldl write_bit (bout sn) p)" by blast
  have "adaptive_try data new_stream =
        Inr (sn\<lparr>bout := finish (foldl write_bit (bout sn) p), calls := calls sn @ [EncWrite 256, Finish]\<rparr>)"
    using st0(1) loop p(2) by (simp add: adaptive_try_def write_end_marker_def)
  with st0(1) loop sn(2,4,5) cnt p(1) show ?thesis by blast
qed


section \<open>Facts about the ENCODE loop of the static driver\<close>








section \<open>Claims about the adaptive driver\<close>

text \<open>
  The statements of this section are about the runs whose reads succeed: \<open>Some \<circ> data\<close>
  is the mapped view that shows the byte \<open>data i\<close> at every offset \<open>i\<close>.
\<close>

text \<open>
  Claim C2: for every processed symbol, with \<open>count\<close> the number of symbols processed so
  far (after the increment), the code tree is rebuilt from the current frequency table if
  and only if \<open>count < 262144\<close> and \<open>count\<close> is an exact power of two, or \<open>count\<close> is an
  exact multiple of 262144.
  Iteration \<open>k + 1\<close> of the loop takes the run from the state \<open>s\<close> to the state \<open>s'\<close>; the
  32-bit \<open>count\<close> is then \<open>k + 1\<close>. Under the stated condition on \<open>k + 1\<close> the tree after
  the iteration is the tree \<open>t\<close> that \<^verbatim>\<open>buildCodeTree\<close> yields for the table of that moment
  (the table before the iteration with the count of the processed symbol increased by
  one, before any reset), and the calls of the iteration are the encoding, the increment,
  that \<^verbatim>\<open>buildCodeTree\<close> and, at a multiple of 262144, the reset. Otherwise the tree after
  the iteration is the tree before it and the calls of the iteration are the encoding and
  the increment alone. The end marker, symbol number \<open>numberOfBytes + 1\<close>, is written
  after the loop with the tree the loop ended with and followed by no rebuild; the
  condition does not hold of \<open>numberOfBytes + 1\<close> either.
\<close>

theorem rebuild_iff_schedule:
  assumes "k < numberOfBytes"
  shows "\<exists>st0 s s' t sn sf.
      adaptive_init new_stream = Inr st0
    \<and> after_iterations (Some \<circ> data) st0 k = Inr s
    \<and> after_iterations (Some \<circ> data) st0 (Suc k) = Inr s'
    \<and> adaptive_loop numberOfBytes (Some \<circ> data) 0 st0 = adaptive_loop numberOfBytes (Some \<circ> data) k s
    \<and> adaptive_loop numberOfBytes (Some \<circ> data) 0 st0 = adaptive_loop numberOfBytes (Some \<circ> data) (Suc k) s'
    \<and> unat (count s') = Suc k
    \<and> list_ex is_build (calls_during s s')
        = ((Suc k < 262144 \<and> (\<exists>j. Suc k = 2 ^ j)) \<or> 262144 dvd Suc k)
    \<and> buildCodeTree ((freqs s)[unat (data k) := freqs s ! unat (data k) + 1]) = Inr t
    \<and> tree s' = (if (Suc k < 262144 \<and> (\<exists>j. Suc k = 2 ^ j)) \<or> 262144 dvd Suc k then t else tree s)
    \<and> calls_during s s' =
        [EncWrite (unat (data k)), Increment (unat (data k))]
        @ (if (Suc k < 262144 \<and> (\<exists>j. Suc k = 2 ^ j)) \<or> 262144 dvd Suc k
           then [BuildCodeTree ((freqs s)[unat (data k) := freqs s ! unat (data k) + 1])] else [])
        @ (if 262144 dvd Suc k then [ResetTable] else [])
    \<and> adaptive_loop numberOfBytes (Some \<circ> data) 0 st0 = Inr (sn, numberOfBytes, Exhausted)
    \<and> adaptive_try (Some \<circ> data) new_stream = Inr sf
    \<and> calls_during sn sf = [EncWrite 256, Finish]
    \<and> tree sf = tree sn
    \<and> list_ex is_build (calls_during sn sf)
        = ((Suc numberOfBytes < 262144 \<and> (\<exists>j. Suc numberOfBytes = 2 ^ j))
           \<or> 262144 dvd Suc numberOfBytes)"
proof -
  let ?data = "Some \<circ> data"
  have rd: "?data j = Some (data j)" for j by simp
  from run_states [OF assms, of ?data data, OF rd] obtain st0 s s' t where
    r: "adaptive_init new_stream = Inr st0"
      "after_iterations ?data st0 k = Inr s"
      "after_iterations ?data st0 (Suc k) = Inr s'"
      "adaptive_loop numberOfBytes ?data 0 st0 = adaptive_loop numberOfBytes ?data k s"
      "adaptive_loop numberOfBytes ?data 0 st0 = adaptive_loop numberOfBytes ?data (Suc k) s'"
      "unat (count s') = Suc k"
    and b: "buildCodeTree ((freqs s)[unat (data k) := freqs s ! unat (data k) + 1]) = Inr t"
    and t: "tree s' = (if rebuild_due (count s') then t else tree s)"
    and c: "calls s' = calls s @ [EncWrite (unat (data k)), Increment (unat (data k))]
         @ (if rebuild_due (count s')
            then [BuildCodeTree ((freqs s)[unat (data k) := freqs s ! unat (data k) + 1])] else [])
         @ (if reset_due (count s') then [ResetTable] else [])"
    by blast
  have due: "rebuild_due (count s') = ((Suc k < 262144 \<and> (\<exists>j. Suc k = 2 ^ j)) \<or> 262144 dvd Suc k)"
    by (simp add: rebuild_due_iff r(6))
  have reset: "reset_due (count s') = (262144 dvd Suc k)"
    by (simp add: reset_due_iff r(6))
  have "list_ex is_build (calls_during s s') = rebuild_due (count s')"
    using c by (simp add: calls_during_def)
  then have iff: "list_ex is_build (calls_during s s')
        = ((Suc k < 262144 \<and> (\<exists>j. Suc k = 2 ^ j)) \<or> 262144 dvd Suc k)"
    by (simp only: due)
  have t': "tree s' = (if (Suc k < 262144 \<and> (\<exists>j. Suc k = 2 ^ j)) \<or> 262144 dvd Suc k then t else tree s)"
    using t by (simp only: due)
  have "calls_during s s' = [EncWrite (unat (data k)), Increment (unat (data k))]
         @ (if rebuild_due (count s')
            then [BuildCodeTree ((freqs s)[unat (data k) := freqs s ! unat (data k) + 1])] else [])
         @ (if reset_due (count s') then [ResetTable] else [])"
    using c by (simp add: calls_during_def)
  then have c': "calls_during s s' =
        [EncWrite (unat (data k)), Increment (unat (data k))]
        @ (if (Suc k < 262144 \<and> (\<exists>j. Suc k = 2 ^ j)) \<or> 262144 dvd Suc k
           then [BuildCodeTree ((freqs s)[unat (data k) := freqs s ! unat (data k) + 1])] else [])
        @ (if 262144 dvd Suc k then [ResetTable] else [])"
    by (simp only: due reset)
  from adaptive_try_result [of ?data data, OF rd] r(1) obtain sn p where
    e: "adaptive_loop numberOfBytes ?data 0 st0 = Inr (sn, numberOfBytes, Exhausted)"
       "adaptive_try ?data new_stream =
          Inr (sn\<lparr>bout := finish (foldl write_bit (bout sn) p), calls := calls sn @ [EncWrite 256, Finish]\<rparr>)"
       (is "_ = Inr ?sf")
    by auto
  have d: "calls_during sn ?sf = [EncWrite 256, Finish]" by (simp add: calls_during_def)
  have ts: "tree ?sf = tree sn" by simp
  have n: "list_ex is_build (calls_during sn ?sf)
        = ((Suc numberOfBytes < 262144 \<and> (\<exists>j. Suc numberOfBytes = 2 ^ j))
           \<or> 262144 dvd Suc numberOfBytes)"
    using no_rebuild_due_after_end_marker by (simp add: d)
  show ?thesis
    by (intro exI [of _ st0] exI [of _ s] exI [of _ s'] exI [of _ t] exI [of _ sn] exI [of _ ?sf]
        conjI r iff b t' c' e d ts n)
qed

theorem rebuild_iff_schedule_witness:
  "0 < numberOfBytes \<and>
   (\<exists>st0 s s' t.
      adaptive_init new_stream = Inr st0
    \<and> after_iterations (Some \<circ> (\<lambda>i. 0)) st0 0 = Inr s
    \<and> after_iterations (Some \<circ> (\<lambda>i. 0)) st0 (Suc 0) = Inr s'
    \<and> unat (count s') = Suc 0
    \<and> list_ex is_build (calls_during s s')
    \<and> buildCodeTree ((freqs s)[0 := freqs s ! 0 + 1]) = Inr t
    \<and> tree s' = t
    \<and> calls_during s s' = [EncWrite 0, Increment 0, BuildCodeTree ((freqs s)[0 := freqs s ! 0 + 1])])"
proof -
  have n: "0 < numberOfBytes" by (simp add: numberOfBytes_def)
  have p: "\<exists>j. Suc 0 = 2 ^ j" by (rule exI [of _ 0]) simp
  from rebuild_iff_schedule [OF n, of "\<lambda>i. 0"] obtain st0 s s' t where
    r: "adaptive_init new_stream = Inr st0"
      "after_iterations (Some \<circ> (\<lambda>i. 0)) st0 0 = Inr s"
      "after_iterations (Some \<circ> (\<lambda>i. 0)) st0 (Suc 0) = Inr s'"
      "unat (count s') = Suc 0"
      "list_ex is_build (calls_during s s')
        = ((Suc 0 < 262144 \<and> (\<exists>j. Suc 0 = 2 ^ j)) \<or> 262144 dvd Suc 0)"
      "buildCodeTree ((freqs s)[unat (0 :: byte) := freqs s ! unat (0 :: byte) + 1]) = Inr t"
      "tree s' = (if (Suc 0 < 262144 \<and> (\<exists>j. Suc 0 = 2 ^ j)) \<or> 262144 dvd Suc 0 then t else tree s)"
      "calls_during s s' =
        [EncWrite (unat (0 :: byte)), Increment (unat (0 :: byte))]
        @ (if (Suc 0 < 262144 \<and> (\<exists>j. Suc 0 = 2 ^ j)) \<or> 262144 dvd Suc 0
           then [BuildCodeTree ((freqs s)[unat (0 :: byte) := freqs s ! unat (0 :: byte) + 1])] else [])
        @ (if 262144 dvd Suc 0 then [ResetTable] else [])"
    by blast
  have "list_ex is_build (calls_during s s')"
    "buildCodeTree ((freqs s)[0 := freqs s ! 0 + 1]) = Inr t"
    "tree s' = t"
    "calls_during s s' = [EncWrite 0, Increment 0, BuildCodeTree ((freqs s)[0 := freqs s ! 0 + 1])]"
    using r(5-8) p by simp_all
  with n r(1-4) show ?thesis by blast
qed

text \<open>
  Claim C3: at every count that is an exact multiple of 262144 the frequency table is
  replaced by a fresh copy of the flat all-ones table only after the rebuild at that same
  count, so that the rebuild consumes the pre-reset counts; a reset never precedes its
  boundary's rebuild. In iteration \<open>k + 1\<close> with 262144 dividing \<open>k + 1\<close> the calls are, in
  this order, the encoding, the increment, \<^verbatim>\<open>buildCodeTree\<close> on the incremented table of
  that moment, and the reset; the tree afterwards is the one built from the incremented
  table and the table afterwards is \<open>initFreqs\<close>. In every other iteration there is no
  reset.
\<close>

theorem reset_follows_rebuild:
  assumes "k < numberOfBytes"
  shows "\<exists>st0 s s' t.
      adaptive_init new_stream = Inr st0
    \<and> after_iterations (Some \<circ> data) st0 k = Inr s
    \<and> after_iterations (Some \<circ> data) st0 (Suc k) = Inr s'
    \<and> adaptive_loop numberOfBytes (Some \<circ> data) 0 st0 = adaptive_loop numberOfBytes (Some \<circ> data) k s
    \<and> adaptive_loop numberOfBytes (Some \<circ> data) 0 st0 = adaptive_loop numberOfBytes (Some \<circ> data) (Suc k) s'
    \<and> unat (count s') = Suc k
    \<and> buildCodeTree ((freqs s)[unat (data k) := freqs s ! unat (data k) + 1]) = Inr t
    \<and> (if 262144 dvd Suc k
        then calls_during s s' =
               [EncWrite (unat (data k)), Increment (unat (data k)),
                BuildCodeTree ((freqs s)[unat (data k) := freqs s ! unat (data k) + 1]),
                ResetTable]
             \<and> tree s' = t \<and> freqs s' = initFreqs
        else ResetTable \<notin> set (calls_during s s')
             \<and> freqs s' = (freqs s)[unat (data k) := freqs s ! unat (data k) + 1])"
proof -
  let ?data = "Some \<circ> data"
  have rd: "?data j = Some (data j)" for j by simp
  from run_states [OF assms, of ?data data, OF rd] obtain st0 s s' t where
    r: "adaptive_init new_stream = Inr st0"
      "after_iterations ?data st0 k = Inr s"
      "after_iterations ?data st0 (Suc k) = Inr s'"
      "adaptive_loop numberOfBytes ?data 0 st0 = adaptive_loop numberOfBytes ?data k s"
      "adaptive_loop numberOfBytes ?data 0 st0 = adaptive_loop numberOfBytes ?data (Suc k) s'"
      "unat (count s') = Suc k"
      "buildCodeTree ((freqs s)[unat (data k) := freqs s ! unat (data k) + 1]) = Inr t"
    and f: "freqs s' = (if reset_due (count s') then initFreqs
                  else (freqs s)[unat (data k) := freqs s ! unat (data k) + 1])"
    and t: "tree s' = (if rebuild_due (count s') then t else tree s)"
    and c: "calls s' = calls s @ [EncWrite (unat (data k)), Increment (unat (data k))]
         @ (if rebuild_due (count s')
            then [BuildCodeTree ((freqs s)[unat (data k) := freqs s ! unat (data k) + 1])] else [])
         @ (if reset_due (count s') then [ResetTable] else [])"
    by blast
  have reset: "reset_due (count s') = (262144 dvd Suc k)"
    by (simp add: reset_due_iff r(6))
  have rebuild: "262144 dvd Suc k \<Longrightarrow> rebuild_due (count s')"
    by (simp add: rebuild_due_iff r(6))
  have "if 262144 dvd Suc k
        then calls_during s s' =
               [EncWrite (unat (data k)), Increment (unat (data k)),
                BuildCodeTree ((freqs s)[unat (data k) := freqs s ! unat (data k) + 1]),
                ResetTable]
             \<and> tree s' = t \<and> freqs s' = initFreqs
        else ResetTable \<notin> set (calls_during s s')
             \<and> freqs s' = (freqs s)[unat (data k) := freqs s ! unat (data k) + 1]"
    using c f t reset rebuild by (simp add: calls_during_def)
  with r show ?thesis by blast
qed

theorem reset_follows_rebuild_witness:
  "262143 < numberOfBytes \<and>
   (\<exists>st0 s s' t.
      adaptive_init new_stream = Inr st0
    \<and> after_iterations (Some \<circ> (\<lambda>i. 0)) st0 262143 = Inr s
    \<and> after_iterations (Some \<circ> (\<lambda>i. 0)) st0 262144 = Inr s'
    \<and> unat (count s') = 262144
    \<and> buildCodeTree ((freqs s)[0 := freqs s ! 0 + 1]) = Inr t
    \<and> calls_during s s' = [EncWrite 0, Increment 0, BuildCodeTree ((freqs s)[0 := freqs s ! 0 + 1]), ResetTable]
    \<and> tree s' = t \<and> freqs s' = initFreqs)"
proof -
  have n: "262143 < numberOfBytes" by (simp add: numberOfBytes_def)
  have d: "(262144 :: nat) dvd Suc 262143" by simp
  have e: "Suc 262143 = 262144" by simp
  show ?thesis
    using reset_follows_rebuild [OF n, of "\<lambda>i. 0"] n unfolding e by (simp del: upt_Suc) blast
qed

text \<open>
  Claim C4 says that the trailing end marker 256 is processed as a final STREAM iteration
  like any other symbol (frequency and count incremented, a rebuild or reset if due)
  before the bit stream is finished. The driver writes the end marker after the loop with
  \<^verbatim>\<open>enc.write(256); bout.finish();\<close> and nothing in between. As amended: the end marker is
  encoded with the tree the loop ended with and the bit stream is finished right after;
  the table, the tree and the count stay as the loop left them (the count is
  \<open>numberOfBytes\<close>, the frequency of 256 is 1 and it is never incremented).
\<close>

theorem end_marker_written_after_loop:
  "\<exists>st0 sn p.
      adaptive_init new_stream = Inr st0
    \<and> adaptive_loop numberOfBytes (Some \<circ> data) 0 st0 = Inr (sn, numberOfBytes, Exhausted)
    \<and> unat (count sn) = numberOfBytes
    \<and> freqs sn ! 256 = 1
    \<and> Increment 256 \<notin> set (calls sn)
    \<and> getCode (tree sn) 256 = Some p
    \<and> adaptive_try (Some \<circ> data) new_stream =
        Inr \<lparr>freqs = freqs sn, tree = tree sn, count = count sn,
             bout = finish (foldl write_bit (bout sn) p),
             calls = calls sn @ [EncWrite 256, Finish]\<rparr>"
proof -
  let ?data = "Some \<circ> data"
  have rd: "?data j = Some (data j)" for j by simp
  from adaptive_try_result [of ?data data, OF rd] obtain st0 sn p where
    r: "adaptive_init new_stream = Inr st0"
      "adaptive_loop numberOfBytes ?data 0 st0 = Inr (sn, numberOfBytes, Exhausted)"
      "unat (count sn) = numberOfBytes" "freqs sn ! 256 = 1" "Increment 256 \<notin> set (calls sn)"
      "getCode (tree sn) 256 = Some p"
      "adaptive_try ?data new_stream =
        Inr (sn\<lparr>bout := finish (foldl write_bit (bout sn) p), calls := calls sn @ [EncWrite 256, Finish]\<rparr>)"
    by blast
  have "sn\<lparr>bout := finish (foldl write_bit (bout sn) p), calls := calls sn @ [EncWrite 256, Finish]\<rparr>
      = \<lparr>freqs = freqs sn, tree = tree sn, count = count sn,
             bout = finish (foldl write_bit (bout sn) p),
             calls = calls sn @ [EncWrite 256, Finish]\<rparr>"
    by simp
  then show ?thesis using r by auto
qed

text \<open>The claim C4 as stated fails on the input file of \<open>numberOfBytes\<close> zero bytes (here with
  pages of 4096 bytes): the end marker is encoded, its frequency and the count are not
  incremented.\<close>

theorem end_marker_is_no_stream_iteration:
  "\<exists>st0 sn s.
      adaptive_init new_stream = Inr st0
    \<and> adaptive_loop numberOfBytes (view_of 4096 (replicate numberOfBytes 0)) 0 st0
          = Inr (sn, numberOfBytes, Exhausted)
    \<and> adaptive_try (view_of 4096 (replicate numberOfBytes 0)) new_stream = Inr s
    \<and> EncWrite 256 \<in> set (calls s)
    \<and> Increment 256 \<notin> set (calls s)
    \<and> freqs s ! 256 = freqs sn ! 256 \<and> freqs s ! 256 \<noteq> freqs sn ! 256 + 1
    \<and> count s = count sn \<and> count s \<noteq> count sn + 1
    \<and> unat (count s) \<noteq> numberOfBytes + 1"
proof -
  let ?file = "replicate numberOfBytes (0 :: byte)"
  let ?data = "view_of 4096 ?file"
  have rd: "?data j = Some (contents ?file j)" if "j < numberOfBytes" for j
    using that by (intro view_of_long_file) simp_all
  from adaptive_try_result [of ?data "contents ?file", OF rd] obtain st0 sn p where
    r: "adaptive_init new_stream = Inr st0"
      "adaptive_loop numberOfBytes ?data 0 st0 = Inr (sn, numberOfBytes, Exhausted)"
      "unat (count sn) = numberOfBytes" "freqs sn ! 256 = 1" "Increment 256 \<notin> set (calls sn)"
      "adaptive_try ?data new_stream =
        Inr (sn\<lparr>bout := finish (foldl write_bit (bout sn) p), calls := calls sn @ [EncWrite 256, Finish]\<rparr>)"
    by blast
  let ?s = "sn\<lparr>bout := finish (foldl write_bit (bout sn) p), calls := calls sn @ [EncWrite 256, Finish]\<rparr>"
  have "EncWrite 256 \<in> set (calls ?s)" "Increment 256 \<notin> set (calls ?s)"
    "freqs ?s ! 256 = freqs sn ! 256" "freqs ?s ! 256 \<noteq> freqs sn ! 256 + 1"
    "count ?s = count sn" "count ?s \<noteq> count sn + 1" "unat (count ?s) \<noteq> numberOfBytes + 1"
    using r(3,5) by simp_all
  with r(1,2,6) show ?thesis by blast
qed

text \<open>
  Claim C7: the adaptive driver initialises its frequency table with count 1 for every one
  of the 257 symbols and builds the initial code tree from that flat table before any
  input symbol is encoded, so that every symbol is encodable from the first byte onward.
  The state \<open>st0\<close> at the head of the loop has the flat table, the tree built from it and
  no call made yet; in every state \<open>s\<close> the loop passes through (after \<open>k\<close> iterations,
  \<open>k = 0\<close> included) every symbol below 257 has a codeword in the current tree and the
  encoder writes it.
\<close>

theorem flat_prior_encodes_every_symbol:
  assumes "symbol < 257" "k \<le> numberOfBytes"
  shows "\<exists>st0 s p b'.
      adaptive_init new_stream = Inr st0
    \<and> freqs st0 = replicate 257 1
    \<and> buildCodeTree (replicate 257 1) = Inr (tree st0)
    \<and> calls st0 = [] \<and> bout st0 = new_stream
    \<and> after_iterations (Some \<circ> data) st0 k = Inr s
    \<and> adaptive_loop numberOfBytes (Some \<circ> data) 0 st0 = adaptive_loop numberOfBytes (Some \<circ> data) k s
    \<and> getCode (tree s) symbol = Some p
    \<and> enc_write (tree s) (bout s) symbol = Inr b'"
proof -
  let ?data = "Some \<circ> data"
  have rd: "?data j = Some (data j)" for j by simp
  from adaptive_init_result [of new_stream] obtain t where
    t: "buildCodeTree initFreqs = Inr t"
       "adaptive_init new_stream = Inr \<lparr>freqs = initFreqs, tree = t, count = 0, bout = new_stream, calls = []\<rparr>"
       (is "_ = Inr ?st0")
       "leaves t = {0..<257}"
    by blast
  have inv0: "adaptive_inv ?st0" using t(3) initFreqs_facts by (simp add: adaptive_inv_def)
  from after_iterations_inv [where data = ?data and d = data, OF inv0 rd, of k] obtain s where
    s: "after_iterations ?data ?st0 k = Inr s" "adaptive_inv s" by blast
  have "symbol \<in> leaves (tree s)" using s(2) assms(1) by (simp add: adaptive_inv_def)
  from enc_write_leaf [OF this, of "bout s"] obtain p where
    p: "getCode (tree s) symbol = Some p" "enc_write (tree s) (bout s) symbol = Inr (foldl write_bit (bout s) p)"
    by blast
  have l: "adaptive_loop numberOfBytes ?data 0 ?st0 = adaptive_loop numberOfBytes ?data k s"
    using adaptive_loop_prefix [OF assms(2), of ?data ?st0] s(1) by simp
  have "freqs ?st0 = replicate 257 1" "buildCodeTree (replicate 257 1) = Inr (tree ?st0)"
    "calls ?st0 = []" "bout ?st0 = new_stream"
    using t(1) by (simp_all add: initFreqs_def)
  with t(2) s(1) l p show ?thesis by blast
qed

theorem flat_prior_encodes_every_symbol_witness:
  "(256 :: nat) < 257 \<and> 0 \<le> numberOfBytes \<and>
   (\<exists>st0 p b'.
      adaptive_init new_stream = Inr st0
    \<and> freqs st0 = replicate 257 1
    \<and> buildCodeTree (replicate 257 1) = Inr (tree st0)
    \<and> calls st0 = [] \<and> bout st0 = new_stream
    \<and> getCode (tree st0) 256 = Some p
    \<and> enc_write (tree st0) new_stream 256 = Inr b')"
proof -
  have h: "(256 :: nat) < 257" "0 \<le> numberOfBytes" by simp_all
  show ?thesis
    using flat_prior_encodes_every_symbol [OF h, of "\<lambda>i. 0"] by auto
qed

section \<open>Claims about the loops of both drivers\<close>




section \<open>Facts about the bit output stream\<close>

lemma drop_bit_and_1_iff: "((drop_bit j (val :: 32 word) AND 1) = 1) = bit val j"
  by (simp add: and_one_eq bit_iff_odd_drop_bit mod_2_eq_odd)

lemma bit_byte_of_bits8:
  "bit (byte_of_bits [b7, b6, b5, b4, b3, b2, b1, b0]) n =
     (n < 8 \<and> [b0, b1, b2, b3, b4, b5, b6, b7] ! n)"
proof (cases "n < 8")
  case False
  then have "\<not> bit (byte_of_bits [b7, b6, b5, b4, b3, b2, b1, b0]) n"
    using bit_imp_le_length [of "byte_of_bits [b7, b6, b5, b4, b3, b2, b1, b0]" n] by auto
  with False show ?thesis by simp
next
  case True
  then consider "n = 0" | "n = 1" | "n = 2" | "n = 3" | "n = 4" | "n = 5" | "n = 6" | "n = 7"
    by linarith
  then show ?thesis
    by cases (simp_all add: byte_of_bits_def bit_simps)
qed

lemma byte_of_val_bits:
  "byte_of_bits (map (bit (val :: 32 word)) [7, 6, 5, 4, 3, 2, 1, 0]) = ucast val"
proof (rule bit_word_eqI)
  fix n assume "n < LENGTH(8)"
  then have n: "n < 8" by simp
  then consider "n = 0" | "n = 1" | "n = 2" | "n = 3" | "n = 4" | "n = 5" | "n = 6" | "n = 7"
    by linarith
  then show "bit (byte_of_bits (map (bit val) [7, 6, 5, 4, 3, 2, 1, 0])) n = bit (ucast val :: byte) n"
    by cases (simp_all add: bit_byte_of_bits8 bit_ucast_iff)
qed

lemma bits_of_byte_of_bits:
  "length p = 8 \<Longrightarrow> bits_of_byte (byte_of_bits p) = p"
proof -
  assume "length p = 8"
  then obtain b7 b6 b5 b4 b3 b2 b1 b0 where p: "p = [b7, b6, b5, b4, b3, b2, b1, b0]"
    by (auto simp: length_Suc_conv eval_nat_numeral)
  show ?thesis
    unfolding p bits_of_byte_def by (simp add: bit_byte_of_bits8)
qed

lemma length_bits_of_byte: "length (bits_of_byte c) = 8"
  by (simp add: bits_of_byte_def)

lemma bits_written_write_bit:
  "length (pending b) < 8 \<Longrightarrow>
   bits_written (write_bit b x) = bits_written b @ [x] \<and> length (pending (write_bit b x)) < 8"
  by (auto simp: write_bit_def bits_written_def Let_def bits_of_byte_of_bits)

lemma bits_written_foldl:
  "length (pending b) < 8 \<Longrightarrow>
   bits_written (foldl write_bit b p) = bits_written b @ p \<and> length (pending (foldl write_bit b p)) < 8"
proof (induction p arbitrary: b)
  case Nil
  then show ?case by simp
next
  case (Cons x p)
  from bits_written_write_bit [OF Cons.prems, of x]
  have w: "bits_written (write_bit b x) = bits_written b @ [x]" "length (pending (write_bit b x)) < 8"
    by simp_all
  from Cons.IH [OF w(2)] w(1) show ?case by simp
qed

lemma length_bits_written: "length (bits_written b) = 8 * length (sink b) + length (pending b)"
proof -
  have "length (concat (map bits_of_byte xs)) = 8 * length xs" for xs
    by (induction xs) (simp_all add: length_bits_of_byte)
  then show ?thesis by (simp add: bits_written_def)
qed

lemma bits_written_finish:
  "length (pending b) < 8 \<Longrightarrow>
   bits_written (finish b) = bits_written b @ replicate ((8 - length (pending b)) mod 8) False
   \<and> pending (finish b) = []"
proof (cases "pending b = []")
  case True
  then show ?thesis by (simp add: finish_def)
next
  case False
  assume l: "length (pending b) < 8"
  from False have "0 < length (pending b)" by simp
  with l have m: "(8 - length (pending b)) mod 8 = 8 - length (pending b)" by simp
  have "length (pending b @ replicate (8 - length (pending b)) False) = 8" using l by simp
  from bits_of_byte_of_bits [OF this] False show ?thesis
    by (simp add: finish_def bits_written_def m)
qed

section \<open>Facts about EMIT_HEADER\<close>

lemma write_val_bits_rev:
  "write_val_bits val j b = foldl write_bit b (map (bit val) (rev [0..<j]))"
proof (induction j arbitrary: b)
  case 0
  show ?case by simp
next
  case (Suc j)
  have "write_val_bits val (Suc j) b = write_val_bits val j (write_bit b (bit val j))"
    by (simp only: write_val_bits.simps drop_bit_and_1_iff)
  then show ?case by (simp add: Suc.IH)
qed

lemma write_val_bits_foldl:
  "write_val_bits val 8 b = foldl write_bit b (map (bit val) [7, 6, 5, 4, 3, 2, 1, 0])"
proof -
  have "rev [0..<8] = [7, 6, 5, 4, 3, 2, 1, 0 :: nat]" by (simp add: upt_rec)
  then show ?thesis using write_val_bits_rev [of val 8 b] by simp
qed

lemma write_val_bits_aligned:
  "write_val_bits val 8 \<lparr>sink = xs, pending = []\<rparr> = \<lparr>sink = xs @ [ucast val], pending = []\<rparr>"
proof -
  have "foldl write_bit \<lparr>sink = xs, pending = []\<rparr> [b7, b6, b5, b4, b3, b2, b1, b0]
      = \<lparr>sink = xs @ [byte_of_bits [b7, b6, b5, b4, b3, b2, b1, b0]], pending = []\<rparr>"
    for b7 b6 b5 b4 b3 b2 b1 b0
    by (simp add: write_bit_def)
  then show ?thesis
    using byte_of_val_bits [of val] by (simp add: write_val_bits_foldl)
qed

lemma write_code_lengths_aligned:
  "write_code_lengths cc i \<lparr>sink = xs, pending = []\<rparr> =
     (if list_ex (\<lambda>val. 256 \<le> val) (drop i cc)
      then Inl (DomainError ''The code for a symbol is too long'',
                \<lparr>sink = xs @ map ucast (takeWhile (\<lambda>val. val < 256) (drop i cc)), pending = []\<rparr>)
      else Inr \<lparr>sink = xs @ map ucast (drop i cc), pending = []\<rparr>)"
proof (induction "length cc - i" arbitrary: i xs)
  case 0
  then show ?case
    by (simp add: write_code_lengths.simps [of cc i] getSymbolLimit_def)
next
  case (Suc d)
  then have i: "i < length cc" and d: "d = length cc - Suc i" by simp_all
  have dr: "drop i cc = cc ! i # drop (Suc i) cc" using i by (simp add: Cons_nth_drop_Suc)
  show ?case
  proof (cases "256 \<le> cc ! i")
    case True
    then show ?thesis
      using i by (simp add: write_code_lengths.simps [of cc i] getSymbolLimit_def
          getCodeLength_def dr not_less)
  next
    case False
    then have "write_code_lengths cc i \<lparr>sink = xs, pending = []\<rparr>
        = write_code_lengths cc (Suc i) \<lparr>sink = xs @ [ucast (cc ! i)], pending = []\<rparr>"
      using i by (simp add: write_code_lengths.simps [of cc i] getSymbolLimit_def
          getCodeLength_def write_val_bits_aligned)
    then show ?thesis
      using Suc.hyps(1) [OF d, of "xs @ [ucast (cc ! i)]"] False by (simp add: dr not_le)
  qed
qed

lemma bits_of_byte_ucast:
  "bits_of_byte (ucast (val :: 32 word)) = map (bit val) [7, 6, 5, 4, 3, 2, 1, 0]"
  by (simp add: bits_of_byte_def bit_ucast_iff)

lemma bits_written_header:
  "bits_written \<lparr>sink = map ucast (lens :: 32 word list), pending = []\<rparr>
     = concat (map (\<lambda>val. map (bit val) [7, 6, 5, 4, 3, 2, 1, 0]) lens)"
  by (induction lens) (simp_all add: bits_written_def bits_of_byte_ucast)

section \<open>Claim about the header emission of the static driver\<close>

text \<open>
  Claim C5: in the header emission, for each symbol 0..256 in ascending order the
  symbol's code length is written as exactly 8 bits, most significant bit first, and a
  domain error is raised if and only if some symbol's code length is at least 256; the
  error is then raised before any further bit for that symbol is written.
  The loop starts on the fresh stream. If no length is 256 or more, it succeeds and has
  handed one byte per symbol, the length itself, to the sink, in the order of the
  symbols; otherwise it throws the domain error, and the stream then holds the bytes of
  the symbols before the first such symbol and no pending bit. The inner loop writes the
  bits 7 down to 0 of the length, so that the bits of the header are the 8-bit
  big-endian codes of the lengths. In \<^verbatim>\<open>main\<close> the canonical code is built with the symbol
  limit of the frequency table that SCAN returns (here on a view whose reads succeed), so
  it has the 257 entries of the symbols 0..256.
\<close>

theorem header_emission:
  "write_code_lengths canonCode 0 new_stream =
     (if list_ex (\<lambda>val. 256 \<le> val) canonCode
      then Inl (DomainError ''The code for a symbol is too long'',
                \<lparr>sink = map ucast (takeWhile (\<lambda>val. val < 256) canonCode), pending = []\<rparr>)
      else Inr \<lparr>sink = map ucast canonCode, pending = []\<rparr>)
   \<and> write_val_bits val 8 b = foldl write_bit b (map (bit val) [7, 6, 5, 4, 3, 2, 1, 0])
   \<and> bits_written \<lparr>sink = map ucast (lens :: 32 word list), pending = []\<rparr>
       = concat (map (\<lambda>val. map (bit val) [7, 6, 5, 4, 3, 2, 1, 0]) lens)
   \<and> (\<exists>ft. scan (Some \<circ> data) = Inr ft \<and> getSymbolLimit (fromCodeTree t (getSymbolLimit ft)) = 257)"
proof -
  have rd: "(Some \<circ> data) j = Some (data j)" for j by simp
  show ?thesis
    using write_code_lengths_aligned [of canonCode 0 "[]"] write_val_bits_foldl [of val b]
      bits_written_header [of lens] scan_nth [of "Some \<circ> data" data, OF rd]
    by (auto simp: new_stream_def getSymbolLimit_def fromCodeTree_def)
qed

end
